theory Spec2Isabelle
  imports Main "HOL-Library.Sublist" "HOL-Library.Finite_Map"
begin

section \<open>Characters and strings of the source language\<close>

text \<open>
  The program is Python: its strings are sequences of code points. A string is modelled
  as \<^typ>\<open>string\<close>, each \<^typ>\<open>char\<close> read as the code point of the same number
  (0 to 255), and the character classes below are Python's Unicode classes on that
  range. Code points above 255 are outside the model.
\<close>

definition code_point :: "char \<Rightarrow> nat" where
  "code_point c = of_char c"

definition of_code_point :: "nat \<Rightarrow> char" where
  "of_code_point n = char_of n"

definition in_range :: "nat \<Rightarrow> nat \<Rightarrow> char \<Rightarrow> bool" where
  "in_range lo hi c = (lo \<le> code_point c \<and> code_point c \<le> hi)"

definition newline :: char where
  "newline = CHR 0x0A"

definition carriage_return :: char where
  "carriage_return = CHR 0x0D"

text \<open>Uppercase letters: \<open>A-Z\<close> and the Latin-1 capitals (all but the sign at 215).\<close>

definition is_upper_char :: "char \<Rightarrow> bool" where
  "is_upper_char c = (in_range 65 90 c \<or> in_range 192 214 c \<or> in_range 216 222 c)"

text \<open>Lowercase letters: \<open>a-z\<close>, the ordinal indicators and micro sign, the Latin-1
  small letters (all but the sign at 247).\<close>

definition is_lower_char :: "char \<Rightarrow> bool" where
  "is_lower_char c =
     (in_range 97 122 c \<or> code_point c = 170 \<or> code_point c = 181 \<or> code_point c = 186
      \<or> in_range 223 246 c \<or> in_range 248 255 c)"

text \<open>The class \<open>\w\<close> of \<open>re\<close> on \<open>str\<close>: alphanumeric (letters, decimal digits, and
  the characters with a numeric value: superscript digits and vulgar fractions) or
  underscore.\<close>

definition is_word :: "char \<Rightarrow> bool" where
  "is_word c =
     (in_range 48 57 c \<or> is_upper_char c \<or> is_lower_char c \<or> c = CHR ''_''
      \<or> code_point c = 178 \<or> code_point c = 179 \<or> code_point c = 185 \<or> in_range 188 190 c)"

text \<open>The class \<open>[A-Za-z_]\<close>.\<close>

definition is_ident :: "char \<Rightarrow> bool" where
  "is_ident c = (in_range 65 90 c \<or> in_range 97 122 c \<or> c = CHR ''_'')"

text \<open>Whitespace as \<open>str.strip\<close> sees it.\<close>

definition is_space :: "char \<Rightarrow> bool" where
  "is_space c = (in_range 9 13 c \<or> in_range 28 32 c \<or> code_point c = 133 \<or> code_point c = 160)"

text \<open>\<open>str.lower\<close>: every uppercase letter of the range has its lowercase 32 higher.\<close>

definition lower_char :: "char \<Rightarrow> char" where
  "lower_char c = (if is_upper_char c then of_code_point (code_point c + 32) else c)"

definition lower :: "string \<Rightarrow> string" where
  "lower s = map lower_char s"

text \<open>\<open>str.isupper\<close>: no lowercase character and at least one uppercase character.\<close>

definition isupper :: "string \<Rightarrow> bool" where
  "isupper s = ((\<forall>c \<in> set s. \<not> is_lower_char c) \<and> (\<exists>c \<in> set s. is_upper_char c))"

text \<open>\<open>str.strip()\<close> without argument.\<close>

definition strip :: "string \<Rightarrow> string" where
  "strip s = rev (dropWhile is_space (rev (dropWhile is_space s)))"

text \<open>\<open>s.split(sep)\<close> for a separator of one character: never an empty list.\<close>

fun split_on :: "char \<Rightarrow> string \<Rightarrow> string list" where
  "split_on sep [] = [[]]"
| "split_on sep (c # cs) =
     (if c = sep then [] # split_on sep cs
      else (case split_on sep cs of [] \<Rightarrow> [[c]] | x # xs \<Rightarrow> (c # x) # xs))"

text \<open>\<open>sep.join(xs)\<close>.\<close>

fun join :: "string \<Rightarrow> string list \<Rightarrow> string" where
  "join sep [] = []"
| "join sep [x] = x"
| "join sep (x # y # ys) = x @ sep @ join sep (y # ys)"

text \<open>\<open>str(n)\<close> for a natural number: its decimal digits.\<close>

fun str_nat :: "nat \<Rightarrow> string" where
  "str_nat n =
     (if n < 10 then [of_code_point (48 + n)]
      else str_nat (n div 10) @ [of_code_point (48 + n mod 10)])"

declare str_nat.simps [simp del]

text \<open>The exceptions the program can raise. \<open>OSError\<close> stands for all its subclasses
  (a missing file, a file where a directory is expected, and so on): the program
  catches none of them.\<close>

datatype error = IndexError | ValueError | OSError

text \<open>The text after the first occurrence of \<open>sep\<close>, up to the next occurrence or
  the end.\<close>

definition field_after :: "char \<Rightarrow> string \<Rightarrow> string" where
  "field_after sep s = takeWhile (\<lambda>c. c \<noteq> sep) (tl (dropWhile (\<lambda>c. c \<noteq> sep) s))"

text \<open>\<open>xs[i]\<close> raises IndexError out of range.\<close>

definition item :: "'a list \<Rightarrow> nat \<Rightarrow> error + 'a" where
  "item xs i = (if i < length xs then Inr (xs ! i) else Inl IndexError)"

section \<open>Word boundaries and the two kinds of pattern the program uses\<close>

text \<open>
  \<open>\b\<close> holds at a position when exactly one of the characters before and after it is
  a word character; the start and the end of the text count as non-word.
\<close>

definition word_boundary :: "char option \<Rightarrow> string \<Rightarrow> bool" where
  "word_boundary prev rest =
     ((case prev of None \<Rightarrow> False | Some c \<Rightarrow> is_word c)
      \<noteq> (case rest of [] \<Rightarrow> False | c # _ \<Rightarrow> is_word c))"

text \<open>
  One attempt of \<open>\b([A-Za-z_]{3,})\b\<close> at a position, \<open>prev\<close> the character before
  it. The greedy repetition takes the whole run of \<open>[A-Za-z_]\<close>; if no boundary
  follows the run, the next character is a word character, and after giving back
  characters the one that follows is a character of the run, a word character too: no
  shorter match exists. So the attempt succeeds with the whole run or fails.
\<close>

definition match_ident :: "char option \<Rightarrow> string \<Rightarrow> (string \<times> string) option" where
  "match_ident prev s =
     (let tok = takeWhile is_ident s; rest = dropWhile is_ident s in
      if word_boundary prev s \<and> 3 \<le> length tok \<and> word_boundary (Some (last tok)) rest
      then Some (tok, rest) else None)"

text \<open>\<open>re.findall\<close> for that pattern: leftmost matches, each search resuming where the
  last match ended, one character further after a failed attempt.\<close>

function findall_ident :: "char option \<Rightarrow> string \<Rightarrow> string list" where
  "findall_ident prev [] = []"
| "findall_ident prev (c # cs) =
     (case match_ident prev (c # cs) of
        Some (tok, rest) \<Rightarrow> tok # findall_ident (Some (last tok)) rest
      | None \<Rightarrow> findall_ident (Some c) cs)"
  by pat_completeness auto
termination
proof (relation "measure (\<lambda>(prev, s). length s)")
  fix prev :: "char option" and c cs x tok rest
  assume "match_ident prev (c # cs) = Some x" and "(tok, rest) = x"
  then have "rest = dropWhile is_ident (c # cs)"
    by (auto simp: match_ident_def Let_def split: if_splits)
  moreover from \<open>match_ident prev (c # cs) = Some x\<close> have "is_ident c"
    by (auto simp: match_ident_def Let_def split: if_splits)
  ultimately have "length rest \<le> length cs"
    by (simp add: length_dropWhile_le)
  then show "((Some (last tok), rest), (prev, c # cs)) \<in> measure (\<lambda>(prev, s). length s)"
    by simp
qed simp_all

text \<open>
  The category patterns have the form \<open>\b(a1|a2|...)\b\<close>, each alternative a literal
  with an optional final \<open>s\<close>, searched with \<open>re.IGNORECASE\<close>. An alternative \<open>xs?\<close>
  is written as the two literals \<open>xs\<close> and \<open>x\<close>. A literal letter matches a character
  whose lowercase it is. One attempt at a position:
\<close>

definition match_alternatives :: "string list \<Rightarrow> char option \<Rightarrow> string \<Rightarrow> bool" where
  "match_alternatives alts prev s =
     (word_boundary prev s \<and>
      (\<exists>a \<in> set alts. a \<noteq> [] \<and> prefix a (lower s) \<and>
         word_boundary (Some (last (take (length a) s))) (drop (length a) s)))"

text \<open>\<open>re.search\<close> as a truth value: some position has a match.\<close>

fun re_search :: "string list \<Rightarrow> char option \<Rightarrow> string \<Rightarrow> bool" where
  "re_search alts prev [] = match_alternatives alts prev []"
| "re_search alts prev (c # cs) =
     (match_alternatives alts prev (c # cs) \<or> re_search alts (Some c) cs)"

section \<open>The organizer\<close>

text \<open>A code block, the dictionary \<open>extract_code_blocks\<close> builds.\<close>

record block =
  language :: string
  content :: string
  hash :: string
  "keywords" :: "string list"

text \<open>\<open>self.component_patterns\<close>, in insertion order, which is the order in which a
  dictionary is iterated.\<close>

definition component_patterns :: "(string \<times> string list) list" where
  "component_patterns =
     [(''utils'', [''utils'', ''util'', ''helpers'', ''helper'', ''common'']),
      (''models'', [''models'', ''model'', ''schemas'', ''schema'', ''entities'', ''entitie'']),
      (''services'', [''service'', ''api'', ''client'', ''adapter'']),
      (''tests'', [''test'', ''spec'']),
      (''config'', [''config'', ''settings'', ''setting''])]"

text \<open>\<open>extract_keywords\<close>. The order in which \<open>list(set(...))\<close> enumerates a set is not
  fixed by the language; \<open>set_list\<close> stands for it.\<close>

definition extract_keywords :: "(string list \<Rightarrow> string list) \<Rightarrow> string \<Rightarrow> string list" where
  "extract_keywords set_list code =
     set_list (map lower (filter (\<lambda>kw. \<not> isupper kw) (findall_ident None code)))"

text \<open>
  What the keyword pattern describes, said without the search: \<open>t\<close> is a token of
  \<open>text\<close> when it is a run of at least three characters of \<open>[A-Za-z_]\<close> somewhere in
  \<open>text\<close>, with no word character just before it and none just after it.
\<close>

definition ident_token :: "string \<Rightarrow> string \<Rightarrow> bool" where
  "ident_token text t =
     (\<exists>pre post. text = pre @ t @ post \<and> 3 \<le> length t \<and> list_all is_ident t \<and>
        (pre = [] \<or> \<not> is_word (last pre)) \<and> (post = [] \<or> \<not> is_word (hd post)))"

text \<open>Tokens of a suffix of the text, \<open>before\<close> telling whether a word character
  precedes the suffix.\<close>

definition token_from :: "bool \<Rightarrow> string \<Rightarrow> string \<Rightarrow> bool" where
  "token_from before s t =
     (\<exists>pre post. s = pre @ t @ post \<and> 3 \<le> length t \<and> list_all is_ident t \<and>
        (if pre = [] then \<not> before else \<not> is_word (last pre)) \<and>
        (post = [] \<or> \<not> is_word (hd post)))"

definition word_before :: "char option \<Rightarrow> bool" where
  "word_before prev = (case prev of None \<Rightarrow> False | Some c \<Rightarrow> is_word c)"

text \<open>The condition of the hint loop of \<open>determine_category\<close> on one line.\<close>

definition hint_line :: "string \<Rightarrow> bool" where
  "hint_line line =
     (\<exists>folder \<in> set (map fst component_patterns). sublist (CHR ''#'' # folder) (lower line))"

fun hint_loop :: "string list \<Rightarrow> (error + string) option" where
  "hint_loop [] = None"
| "hint_loop (line # lines) =
     (if hint_line line
      then Some (case item (split_on (CHR ''#'') line) 1 of
                   Inl e \<Rightarrow> Inl e
                 | Inr t \<Rightarrow> Inr (strip t))
      else hint_loop lines)"

fun pattern_loop :: "(string \<times> string list) list \<Rightarrow> string \<Rightarrow> string option" where
  "pattern_loop [] joined = None"
| "pattern_loop ((category, pattern) # ps) joined =
     (if re_search pattern None joined then Some category else pattern_loop ps joined)"

definition determine_category :: "block \<Rightarrow> error + string" where
  "determine_category b =
     (case hint_loop (split_on newline (content b)) of
        Some r \<Rightarrow> r
      | None \<Rightarrow>
          (case pattern_loop component_patterns (join '' '' (keywords b)) of
             Some category \<Rightarrow> Inr category
           | None \<Rightarrow> Inr (''uncategorized/'' @ language b)))"

text \<open>\<open>get_extension\<close>.\<close>

definition extensions :: "(string \<times> string) list" where
  "extensions =
     [(''python'', ''.py''), (''javascript'', ''.js''), (''typescript'', ''.ts''),
      (''java'', ''.java''), (''csharp'', ''.cs''), (''txt'', ''.txt'')]"

definition get_extension :: "string \<Rightarrow> string" where
  "get_extension lang =
     (case map_of extensions lang of Some e \<Rightarrow> e | None \<Rightarrow> ''.'' @ lang)"

text \<open>
  The pattern of \<open>extract_code_blocks\<close> is
  \<^verbatim>\<open>```(?P<lang>\w+)?\n(?P<code>.*?)```\<close> with \<open>re.DOTALL\<close>.
  The lazy \<open>.*?\<close> followed by the closing delimiter stops at the first delimiter that
  follows: the result is the text before it and the text after it.
\<close>

definition fence :: string where
  "fence = ''```''"

fun lazy_until_fence :: "string \<Rightarrow> (string \<times> string) option" where
  "lazy_until_fence [] = None"
| "lazy_until_fence (c # cs) =
     (if prefix fence (c # cs) then Some ([], drop 3 (c # cs))
      else (case lazy_until_fence cs of
              None \<Rightarrow> None
            | Some (code, rest) \<Rightarrow> Some (c # code, rest)))"

text \<open>
  One attempt of the pattern at the start of \<open>s\<close>: the group \<open>lang\<close> (absent when no
  word character follows the delimiter), the group \<open>code\<close>, and the text after the
  match. The greedy \<open>\w+\<close> takes the whole run of word characters; a shorter run is
  followed by a word character, never by the newline the pattern asks for next.
\<close>

definition match_fence :: "string \<Rightarrow> (string option \<times> string \<times> string) option" where
  "match_fence s =
     (if prefix fence s then
        (let lang = takeWhile is_word (drop 3 s) in
         case dropWhile is_word (drop 3 s) of
           [] \<Rightarrow> None
         | c # s' \<Rightarrow>
             if c = newline then
               (case lazy_until_fence s' of
                  None \<Rightarrow> None
                | Some (code, rest) \<Rightarrow> Some (if lang = [] then None else Some lang, code, rest))
             else None)
      else None)"

lemma lazy_until_fence_length:
  "lazy_until_fence s = Some (code, rest) \<Longrightarrow> length rest < length s"
  by (induction s arbitrary: code) (auto split: if_splits option.splits)

lemma match_fence_length:
  assumes "match_fence s = Some (lang, code, rest)"
  shows "length rest < length s"
proof -
  from assms obtain s' where s': "lazy_until_fence s' = Some (code, rest)"
    and "length s' \<le> length s"
    using length_dropWhile_le [of is_word "drop 3 s"]
    by (auto simp: match_fence_def Let_def split: if_splits list.splits option.splits)
  with lazy_until_fence_length [OF s'] show ?thesis by simp
qed

text \<open>\<open>finditer\<close>: the matches from left to right, without overlap.\<close>

function finditer_fence :: "string \<Rightarrow> (string option \<times> string) list" where
  "finditer_fence [] = []"
| "finditer_fence (c # cs) =
     (case match_fence (c # cs) of
        Some (lang, code, rest) \<Rightarrow> (lang, code) # finditer_fence rest
      | None \<Rightarrow> finditer_fence cs)"
  by pat_completeness auto
termination
  by (relation "measure length") (auto dest: match_fence_length)

text \<open>The body of the loop of \<open>extract_code_blocks\<close>, for one match. The digest of
  \<open>hashlib\<close> is a parameter, \<open>md5\<close>.\<close>

definition block_of_match ::
  "(string \<Rightarrow> string) \<Rightarrow> (string list \<Rightarrow> string list) \<Rightarrow> string option \<times> string \<Rightarrow> block" where
  "block_of_match md5 set_list m =
     (let lang = (case fst m of None \<Rightarrow> ''txt'' | Some l \<Rightarrow> if l = [] then ''txt'' else l);
          code = strip (snd m)
      in \<lparr>language = lower lang, content = code, hash = md5 code,
          keywords = extract_keywords set_list code\<rparr>)"

definition code_blocks ::
  "(string \<Rightarrow> string) \<Rightarrow> (string list \<Rightarrow> string list) \<Rightarrow> string \<Rightarrow> block list" where
  "code_blocks md5 set_list text = map (block_of_match md5 set_list) (finditer_fence text)"

text \<open>
  Transcripts described by their parts, to state what extraction yields. A region is
  the prose before it, its tag and its body. It is well formed when the prose and the
  body contain no delimiter, the tag is made of word characters, and the body does
  not end with a backtick (which would join the closing delimiter). A transcript ends
  with prose, or with an opening delimiter that nothing closes.
\<close>

definition fence_free :: "string \<Rightarrow> bool" where
  "fence_free t = (\<not> sublist fence t)"

definition render_region :: "string \<times> string \<times> string \<Rightarrow> string" where
  "render_region r =
     (case r of (prose, tag, body) \<Rightarrow> prose @ fence @ tag @ [newline] @ body @ fence)"

definition well_formed_region :: "string \<times> string \<times> string \<Rightarrow> bool" where
  "well_formed_region r =
     (case r of (prose, tag, body) \<Rightarrow>
        fence_free prose \<and> list_all is_word tag \<and> fence_free body \<and>
        (body = [] \<or> last body \<noteq> CHR ''`''))"

definition match_of_region :: "string \<times> string \<times> string \<Rightarrow> string option \<times> string" where
  "match_of_region r =
     (case r of (prose, tag, body) \<Rightarrow> (if tag = [] then None else Some tag, body))"

datatype ending = Prose string | Unterminated string string string

fun render_ending :: "ending \<Rightarrow> string" where
  "render_ending (Prose t) = t"
| "render_ending (Unterminated prose tag body) = prose @ fence @ tag @ [newline] @ body"

fun well_formed_ending :: "ending \<Rightarrow> bool" where
  "well_formed_ending (Prose t) = fence_free t"
| "well_formed_ending (Unterminated prose tag body) =
     (fence_free prose \<and> list_all is_word tag \<and> fence_free body)"

section \<open>Paths and the file system\<close>

text \<open>
  A path is the tuple of parts of a \<open>pathlib\<close> POSIX path: the components, after the
  anchor \<open>/\<close> or \<open>//\<close> when the path is absolute. Empty components and \<open>.\<close> are dropped
  when a string is parsed.
\<close>

type_synonym path = "string list"

definition anchor :: "string \<Rightarrow> path" where
  "anchor s =
     (if prefix ''//'' s \<and> \<not> prefix ''///'' s then [''//'']
      else if prefix ''/'' s then [''/'']
      else [])"

definition path_parts :: "string \<Rightarrow> path" where
  "path_parts s = anchor s @ filter (\<lambda>p. p \<noteq> [] \<and> p \<noteq> ''.'') (split_on (CHR ''/'') s)"

text \<open>\<open>p / s\<close>: an absolute \<open>s\<close> replaces \<open>p\<close>.\<close>

definition path_join :: "path \<Rightarrow> string \<Rightarrow> path" where
  "path_join p s = (if anchor s = [] then p @ path_parts s else path_parts s)"

text \<open>
  The file system, as far as the program observes it: a finite map from paths to
  directories and files with their bytes. The working directory (the empty path) and
  the roots are directories that always exist. Symbolic links, permissions and the
  space left are outside the model, and \<open>..\<close> is a name like any other. The limit on
  the length of a name is left out of the calls of this section and is taken up with
  \<open>exists_checked\<close> below. A file holds its bytes, each the code point of the same
  number: text mode is taken with the one-byte encoding of the range of the model,
  with which the usual encodings agree on ASCII text. A path with a NUL character is
  refused with ValueError by every system call, and is reported as absent by
  \<open>Path.exists\<close>.
\<close>

datatype node = Dir | File string

type_synonym filesystem = "(path, node) fmap"

definition node_at :: "filesystem \<Rightarrow> path \<Rightarrow> node option" where
  "node_at fs p = (if p = [] \<or> p = [''/''] \<or> p = [''//''] then Some Dir else fmlookup fs p)"

definition has_nul :: "path \<Rightarrow> bool" where
  "has_nul p = (\<exists>c \<in> set p. CHR 0x00 \<in> set c)"

definition path_exists :: "filesystem \<Rightarrow> path \<Rightarrow> bool" where
  "path_exists fs p = (\<not> has_nul p \<and> node_at fs p \<noteq> None)"

text \<open>\<open>mkdir(parents=True, exist_ok=True)\<close> walks the path from its first part:
  a directory is entered, a missing one is created, a file stops the walk.\<close>

fun make_dirs :: "path \<Rightarrow> path \<Rightarrow> filesystem \<Rightarrow> error + filesystem" where
  "make_dirs done [] fs = Inr fs"
| "make_dirs done (c # cs) fs =
     (case node_at fs (done @ [c]) of
        Some Dir \<Rightarrow> make_dirs (done @ [c]) cs fs
      | Some (File _) \<Rightarrow> Inl OSError
      | None \<Rightarrow> make_dirs (done @ [c]) cs (fmupd (done @ [c]) Dir fs))"

definition mkdir :: "path \<Rightarrow> filesystem \<Rightarrow> error + filesystem" where
  "mkdir p fs = (if has_nul p then Inl ValueError else make_dirs [] p fs)"

text \<open>\<open>with open(p, 'w') as f: f.write(text)\<close>: the file is created or truncated in an
  existing directory.\<close>

definition write_text :: "path \<Rightarrow> string \<Rightarrow> filesystem \<Rightarrow> error + filesystem" where
  "write_text p text fs =
     (if has_nul p then Inl ValueError
      else case node_at fs p of
        Some Dir \<Rightarrow> Inl OSError
      | Some (File _) \<Rightarrow> Inr (fmupd p (File text) fs)
      | None \<Rightarrow>
          (case node_at fs (butlast p) of
             Some Dir \<Rightarrow> Inr (fmupd p (File text) fs)
           | _ \<Rightarrow> Inl OSError))"

text \<open>Reading in text mode with the default \<open>newline=None\<close> turns every \<open>\r\n\<close> and
  every other \<open>\r\<close> into \<open>\n\<close>. Writing in text mode on POSIX stores \<open>\n\<close> as it
  is.\<close>

fun universal_newlines :: "string \<Rightarrow> string" where
  "universal_newlines [] = []"
| "universal_newlines [c] = (if c = carriage_return then [newline] else [c])"
| "universal_newlines (c # d # cs) =
     (if c = carriage_return
      then (if d = newline then newline # universal_newlines cs
            else newline # universal_newlines (d # cs))
      else c # universal_newlines (d # cs))"

declare universal_newlines.simps [simp del]

text \<open>\<open>with open(name, 'r') as f: f.read()\<close>. The name is a string, resolved by the
  system: an empty name, and a name whose last component is empty or \<open>.\<close>, do not
  name a file.\<close>

definition read_text :: "string \<Rightarrow> filesystem \<Rightarrow> error + string" where
  "read_text name fs =
     (if CHR 0x00 \<in> set name then Inl ValueError
      else if last (split_on (CHR ''/'') name) = [] \<or> last (split_on (CHR ''/'') name) = ''.''
      then Inl OSError
      else case node_at fs (path_parts name) of
        Some (File stored) \<Rightarrow> Inr (universal_newlines stored)
      | _ \<Rightarrow> Inl OSError)"

section \<open>Extraction, naming and writing\<close>

definition extract_code_blocks ::
  "(string \<Rightarrow> string) \<Rightarrow> (string list \<Rightarrow> string list) \<Rightarrow> string \<Rightarrow> filesystem
     \<Rightarrow> error + block list" where
  "extract_code_blocks md5 set_list chat_file fs =
     (case read_text chat_file fs of
        Inl e \<Rightarrow> Inl e
      | Inr text \<Rightarrow> Inr (code_blocks md5 set_list text))"

text \<open>The loop of \<open>generate_filename\<close>. Nothing in the code bounds it, so it is a
  partial function: \<open>None\<close> is the loop that never ends.\<close>

partial_function (option) duplicate_loop ::
  "(string \<Rightarrow> bool) \<Rightarrow> string \<Rightarrow> string \<Rightarrow> string \<Rightarrow> nat \<Rightarrow> string option" where
  "duplicate_loop exists base_name ext filename counter =
     (if exists filename
      then duplicate_loop exists base_name ext (base_name @ ''_'' @ str_nat counter @ ext)
             (counter + 1)
      else Some filename)"

declare duplicate_loop.simps [code]

text \<open>The names the loop tries, in order: \<open>base_name + ext\<close>, then
  \<open>base_name_1 + ext\<close>, \<open>base_name_2 + ext\<close>, ...\<close>

definition candidate :: "string \<Rightarrow> string \<Rightarrow> nat \<Rightarrow> string" where
  "candidate base_name ext n =
     (if n = 0 then base_name @ ext else base_name @ ''_'' @ str_nat n @ ext)"

definition base_name_of :: "block \<Rightarrow> string" where
  "base_name_of b =
     (let joined = join ''_'' (take 3 (keywords b)) in if joined = [] then ''code'' else joined)"

definition generate_filename :: "block \<Rightarrow> path \<Rightarrow> filesystem \<Rightarrow> string option" where
  "generate_filename b dest_dir fs =
     (let base_name = base_name_of b;
          ext = get_extension (language b);
          filename = base_name @ ext
      in duplicate_loop (\<lambda>name. path_exists fs (path_join dest_dir name))
           base_name ext filename 1)"






text \<open>\<open>organize_code\<close>: \<open>None\<close> when the naming loop of some block never ends, an error
  when a call raises, else the file system after the last block.\<close>

fun organize_code :: "path \<Rightarrow> block list \<Rightarrow> filesystem \<Rightarrow> (error + filesystem) option" where
  "organize_code output_dir [] fs = Some (Inr fs)"
| "organize_code output_dir (b # bs) fs =
     (case determine_category b of
        Inl e \<Rightarrow> Some (Inl e)
      | Inr directory \<Rightarrow>
          (let dest_dir = path_join output_dir directory in
           case mkdir dest_dir fs of
             Inl e \<Rightarrow> Some (Inl e)
           | Inr fs1 \<Rightarrow>
               (case generate_filename b dest_dir fs1 of
                  None \<Rightarrow> None
                | Some filename \<Rightarrow>
                    (case write_text (path_join dest_dir filename) (content b) fs1 of
                       Inl e \<Rightarrow> Some (Inl e)
                     | Inr fs2 \<Rightarrow> organize_code output_dir bs fs2))))"

definition process_chat ::
  "(string \<Rightarrow> string) \<Rightarrow> (string list \<Rightarrow> string list) \<Rightarrow> path \<Rightarrow> string \<Rightarrow> filesystem
     \<Rightarrow> (error + filesystem) option" where
  "process_chat md5 set_list output_dir chat_file fs =
     (case extract_code_blocks md5 set_list chat_file fs of
        Inl e \<Rightarrow> Some (Inl e)
      | Inr blocks \<Rightarrow> organize_code output_dir blocks fs)"

section \<open>Facts about characters, splitting and the hint loop\<close>


lemma code_point_inj: "code_point a = code_point b \<longleftrightarrow> a = b"
  by (simp add: code_point_def)

lemma code_point_of_code_point: "n < 256 \<Longrightarrow> code_point (of_code_point n) = n"
  by (simp add: code_point_def of_code_point_def)

lemma code_point_lower_char:
  "code_point (lower_char c) = (if is_upper_char c then code_point c + 32 else code_point c)"
  by (auto simp: lower_char_def is_upper_char_def in_range_def code_point_of_code_point)

lemma code_point_hash: "code_point (CHR ''#'') = 35"
  by (simp add: code_point_def)

lemma lower_char_hash: "lower_char c = CHR ''#'' \<longleftrightarrow> c = CHR ''#''"
proof -
  have "lower_char c = CHR ''#'' \<longleftrightarrow> code_point (lower_char c) = 35"
    by (simp only: code_point_inj [symmetric] code_point_hash)
  also have "\<dots> \<longleftrightarrow> code_point c = 35"
    by (auto simp: code_point_lower_char is_upper_char_def in_range_def)
  also have "\<dots> \<longleftrightarrow> c = CHR ''#''"
    by (simp only: code_point_inj [symmetric] code_point_hash)
  finally show ?thesis .
qed

lemma hash_in_lower: "CHR ''#'' \<in> set (lower s) \<longleftrightarrow> CHR ''#'' \<in> set s"
proof -
  have "CHR ''#'' \<in> set (lower s) \<longleftrightarrow> (\<exists>c \<in> set s. lower_char c = CHR ''#'')"
    by (force simp: lower_def image_iff)
  then show ?thesis by (simp add: lower_char_hash)
qed

lemma hint_line_hash: "hint_line l \<Longrightarrow> CHR ''#'' \<in> set l"
proof -
  assume "hint_line l"
  then obtain folder where "sublist (CHR ''#'' # folder) (lower l)"
    by (auto simp: hint_line_def)
  then have "set (CHR ''#'' # folder) \<subseteq> set (lower l)"
    by (rule set_mono_sublist)
  then show ?thesis by (simp add: hash_in_lower)
qed

lemma split_on_not_Nil: "split_on sep s \<noteq> []"
  by (induction s) (auto split: list.splits)

lemma split_on_unfold:
  "split_on sep s =
     takeWhile (\<lambda>c. c \<noteq> sep) s #
       (case dropWhile (\<lambda>c. c \<noteq> sep) s of [] \<Rightarrow> [] | _ # r \<Rightarrow> split_on sep r)"
  by (induction s) (auto split: list.splits simp: split_on_not_Nil)

lemma item_split_on:
  assumes "sep \<in> set s"
  shows "item (split_on sep s) (Suc 0) = Inr (field_after sep s)"
proof -
  from assms obtain r where r: "dropWhile (\<lambda>c. c \<noteq> sep) s = sep # r"
    by (metis (mono_tags, lifting) dropWhile_eq_Nil_conv hd_dropWhile list.collapse)
  have "split_on sep s = takeWhile (\<lambda>c. c \<noteq> sep) s # split_on sep r"
    by (subst split_on_unfold) (simp add: r)
  moreover obtain xs where "split_on sep r = takeWhile (\<lambda>c. c \<noteq> sep) r # xs"
    using split_on_unfold [of sep r] by blast
  ultimately show ?thesis
    by (simp add: item_def field_after_def r)
qed

lemma hint_loop_first:
  assumes "\<forall>x \<in> set pre. \<not> hint_line x" and "hint_line l"
  shows "hint_loop (pre @ l # post) = Some (Inr (strip (field_after (CHR ''#'') l)))"
  using assms by (induction pre) (simp_all add: item_split_on hint_line_hash)

lemma hint_loop_None: "hint_loop ls = None \<longleftrightarrow> (\<forall>l \<in> set ls. \<not> hint_line l)"
  by (induction ls) auto

lemma hint_loop_no_error: "hint_loop ls \<noteq> Some (Inl e)"
  by (induction ls) (auto simp: item_split_on hint_line_hash)

lemma pattern_loop_None:
  "pattern_loop ps joined = None \<longleftrightarrow> (\<forall>(category, pattern) \<in> set ps. \<not> re_search pattern None joined)"
  by (induction ps joined rule: pattern_loop.induct) auto

lemma determine_category_total: "\<exists>c. determine_category b = Inr c"
proof (cases "hint_loop (split_on newline (content b))")
  case None
  then show ?thesis by (simp add: determine_category_def split: option.splits)
next
  case (Some r)
  with hint_loop_no_error obtain c where "r = Inr c"
    by (cases r) auto
  with Some show ?thesis by (simp add: determine_category_def)
qed




lemmas char_eval =
  in_range_def code_point_def of_code_point_def is_upper_char_def is_lower_char_def
  is_word_def is_ident_def is_space_def lower_def lower_char_def newline_def
  char_of_def bit_Suc_0_iff

lemma strip_decomposition:
  "\<exists>ws ws'. t = ws @ strip t @ ws' \<and> list_all is_space ws \<and> list_all is_space ws'"
proof -
  let ?d = "dropWhile is_space t"
  have "t = takeWhile is_space t @ ?d" by simp
  moreover have "rev ?d = takeWhile is_space (rev ?d) @ dropWhile is_space (rev ?d)" by simp
  then have "?d = strip t @ rev (takeWhile is_space (rev ?d))"
    unfolding strip_def by (metis rev_append rev_rev_ident)
  ultimately have "t = takeWhile is_space t @ strip t @ rev (takeWhile is_space (rev ?d))"
    by metis
  moreover have "list_all is_space (takeWhile is_space t)"
    by (simp add: list_all_iff) (meson set_takeWhileD)
  moreover have "list_all is_space (rev (takeWhile is_space (rev ?d)))"
    by (simp add: list_all_iff) (meson set_takeWhileD)
  ultimately show ?thesis by blast
qed

lemma field_after_decomposition:
  assumes "l = before @ sep # token @ after"
    and "sep \<notin> set before" and "sep \<notin> set token" and "after = [] \<or> hd after = sep"
  shows "field_after sep l = token"
proof -
  have "dropWhile (\<lambda>c. c \<noteq> sep) l = sep # token @ after"
    using assms(1,2) by (auto simp: dropWhile_append3)
  moreover have "takeWhile (\<lambda>c. c \<noteq> sep) (token @ after) = token"
    using assms(3,4) by (cases after) (auto simp: takeWhile_append)
  ultimately show ?thesis by (simp add: field_after_def)
qed

lemmas search_eval =
  component_patterns_def match_alternatives_def word_boundary_def char_eval

lemmas path_eval =
  path_exists_def has_nul_def node_at_def path_join_def path_parts_def anchor_def

section \<open>The classifier\<close>

text \<open>
  Claim C1. When some line of the content carries a hint marker, the first such line
  in document order decides the category: \<open>determine_category\<close> returns the field
  after the first \<open>#\<close> of that line, stripped, whatever the keywords and the language
  of the block are, so also when the keywords match a category pattern.
\<close>

theorem hint_wins:
  assumes "split_on newline (content b) = pre @ l # post"
    and "\<forall>x \<in> set pre. \<not> hint_line x" and "hint_line l"
  shows "determine_category b = Inr (strip (field_after (CHR ''#'') l)) \<and>
         (\<forall>ks lang. determine_category (b\<lparr>keywords := ks, language := lang\<rparr>) = determine_category b)"
  using assms by (simp add: determine_category_def hint_loop_first)

theorem hint_wins_witness:
  "pattern_loop component_patterns (join '' '' [''model'']) = Some ''models'' \<and>
   determine_category
     \<lparr>language = ''python'', content = ''#tests'' @ [newline] @ ''class Model'', hash = [],
      keywords = [''model'']\<rparr> = Inr ''tests''"
proof -
  let ?b = "\<lparr>language = ''python'', content = ''#tests'' @ [newline] @ ''class Model'',
             hash = [], keywords = [''model'']\<rparr>"
  have lines: "split_on newline (content ?b) = [] @ ''#tests'' # [''class Model'']"
    by (simp add: newline_def)
  have hint: "hint_line ''#tests''"
    by (simp add: hint_line_def component_patterns_def sublist_code char_eval)
  have "determine_category ?b = Inr (strip (field_after (CHR ''#'') ''#tests''))"
    using hint_wins [OF lines _ hint] by simp
  moreover have "strip (field_after (CHR ''#'') ''#tests'') = ''tests''"
    by (simp add: strip_def field_after_def char_eval)
  moreover have "pattern_loop component_patterns (join '' '' [''model'']) = Some ''models''"
    by (simp add: search_eval)
  ultimately show ?thesis by simp
qed

text \<open>
  Claim C4. When the hint scan fires on a line, the category returned is the text
  that follows the first \<open>#\<close> of that line, up to the next \<open>#\<close> or the end of the
  line, with the surrounding whitespace removed and nothing else changed: it is a part
  of the line as written, in its original case.
\<close>

theorem hint_token_verbatim:
  assumes "split_on newline (content b) = pre @ l # post"
    and "\<forall>x \<in> set pre. \<not> hint_line x" and "hint_line l"
    and "l = before @ CHR ''#'' # token @ after"
    and "CHR ''#'' \<notin> set before" and "CHR ''#'' \<notin> set token"
    and "after = [] \<or> hd after = CHR ''#''"
  shows "determine_category b = Inr (strip token) \<and>
         (\<exists>ws ws'. token = ws @ strip token @ ws' \<and> list_all is_space ws \<and> list_all is_space ws')"
  using assms(1-3) field_after_decomposition [OF assms(4-7)] strip_decomposition [of token]
  by (simp add: determine_category_def hint_loop_first)

theorem hint_token_verbatim_witness:
  "determine_category
     \<lparr>language = ''python'', content = ''import os'' @ [newline] @ ''#Tests '', hash = [],
      keywords = [''import'']\<rparr> = Inr ''Tests''"
proof -
  let ?b = "\<lparr>language = ''python'', content = ''import os'' @ [newline] @ ''#Tests '',
             hash = [], keywords = [''import'']\<rparr>"
  have lines: "split_on newline (content ?b) = [''import os''] @ ''#Tests '' # []"
    by (simp add: newline_def)
  have no_hint: "\<forall>x \<in> set [''import os'']. \<not> hint_line x"
    by (simp add: hint_line_def component_patterns_def sublist_code char_eval)
  have hint: "hint_line ''#Tests ''"
    by (simp add: hint_line_def component_patterns_def sublist_code char_eval)
  have parts: "''#Tests '' = [] @ CHR ''#'' # ''Tests '' @ []"
    by simp
  have "determine_category ?b = Inr (strip ''Tests '')"
    using hint_token_verbatim [OF lines no_hint hint parts] by simp
  moreover have "strip ''Tests '' = ''Tests''"
    by (simp add: strip_def char_eval)
  ultimately show ?thesis by simp
qed

text \<open>
  Claim C5. \<open>determine_category\<close> never raises, and a block with no hint line whose
  joined keywords match none of the five patterns gets the category
  \<open>uncategorized/\<close> followed by its language.
\<close>

theorem fallback_total:
  "(\<exists>c. determine_category b = Inr c) \<and>
   ((\<forall>l \<in> set (split_on newline (content b)). \<not> hint_line l) \<and>
    (\<forall>(category, pattern) \<in> set component_patterns.
        \<not> re_search pattern None (join '' '' (keywords b)))
    \<longrightarrow> determine_category b = Inr (''uncategorized/'' @ language b))"
proof -
  have "determine_category b = Inr (''uncategorized/'' @ language b)"
    if "\<forall>l \<in> set (split_on newline (content b)). \<not> hint_line l"
      and "\<forall>(category, pattern) \<in> set component_patterns.
        \<not> re_search pattern None (join '' '' (keywords b))"
  proof -
    from that(1) have "hint_loop (split_on newline (content b)) = None"
      by (simp add: hint_loop_None)
    moreover from that(2) have "pattern_loop component_patterns (join '' '' (keywords b)) = None"
      by (simp only: pattern_loop_None)
    ultimately show ?thesis by (simp add: determine_category_def)
  qed
  with determine_category_total [of b] show ?thesis by blast
qed

theorem fallback_total_witness:
  "determine_category
     \<lparr>language = ''ruby'', content = ''puts 1'', hash = [], keywords = [''puts'']\<rparr>
   = Inr ''uncategorized/ruby''"
proof -
  let ?b = "\<lparr>language = ''ruby'', content = ''puts 1'', hash = [], keywords = [''puts'']\<rparr>"
  have "split_on newline (content ?b) = [''puts 1'']"
    by (simp add: newline_def)
  moreover have "\<not> hint_line ''puts 1''"
    by (simp add: hint_line_def component_patterns_def sublist_code char_eval)
  ultimately have no_hint: "\<forall>l \<in> set (split_on newline (content ?b)). \<not> hint_line l"
    by simp
  have no_pattern: "\<forall>(category, pattern) \<in> set component_patterns.
      \<not> re_search pattern None (join '' '' (keywords ?b))"
    by (simp add: search_eval)
  from fallback_total [of ?b] no_hint no_pattern
  have "determine_category ?b = Inr (''uncategorized/'' @ language ?b)"
    by blast
  then show ?thesis by simp
qed

section \<open>Facts about the keyword pattern\<close>

lemma is_ident_word: "is_ident c \<Longrightarrow> is_word c"
  by (auto simp: is_ident_def is_word_def is_upper_char_def is_lower_char_def)

lemma run_is_takeWhile:
  assumes "list_all P t" and "post = [] \<or> \<not> P (hd post)"
  shows "takeWhile P (t @ post) = t" and "dropWhile P (t @ post) = post"
  using assms by (cases post; simp add: list_all_iff takeWhile_append dropWhile_append)+

lemma match_ident_Some:
  "match_ident prev s = Some (tok, rest) \<longleftrightarrow>
     s = tok @ rest \<and> 3 \<le> length tok \<and> list_all is_ident tok \<and> \<not> word_before prev \<and>
     (rest = [] \<or> \<not> is_word (hd rest))"
proof
  assume m: "match_ident prev s = Some (tok, rest)"
  then have tok: "tok = takeWhile is_ident s" and rest: "rest = dropWhile is_ident s"
    and len: "3 \<le> length tok" and b1: "word_boundary prev s"
    and b2: "word_boundary (Some (last tok)) rest"
    by (auto simp: match_ident_def Let_def split: if_splits)
  from len have "tok \<noteq> []" by auto
  have all: "list_all is_ident tok"
    by (simp add: tok list_all_iff) (meson set_takeWhileD)
  with \<open>tok \<noteq> []\<close> have "is_word (last tok)"
    by (simp add: list_all_iff is_ident_word)
  with b2 have "rest = [] \<or> \<not> is_word (hd rest)"
    by (cases rest) (auto simp: word_boundary_def)
  moreover from \<open>tok \<noteq> []\<close> tok obtain c cs where s: "s = c # cs" and "is_ident c"
    by (cases s) (auto split: if_splits)
  with b1 have "\<not> word_before prev"
    by (auto simp: word_boundary_def word_before_def is_ident_word split: option.splits)
  moreover have "s = tok @ rest" by (simp add: tok rest)
  ultimately show "s = tok @ rest \<and> 3 \<le> length tok \<and> list_all is_ident tok \<and>
      \<not> word_before prev \<and> (rest = [] \<or> \<not> is_word (hd rest))"
    using len all by blast
next
  assume a: "s = tok @ rest \<and> 3 \<le> length tok \<and> list_all is_ident tok \<and> \<not> word_before prev \<and>
     (rest = [] \<or> \<not> is_word (hd rest))"
  then have "rest = [] \<or> \<not> is_ident (hd rest)"
    using is_ident_word by blast
  with a have tw: "takeWhile is_ident s = tok" "dropWhile is_ident s = rest"
    by (simp_all add: run_is_takeWhile)
  from a have "tok \<noteq> []" by auto
  with a have "is_word (hd tok)" "is_word (last tok)"
    by (simp_all add: list_all_iff is_ident_word)
  with a \<open>tok \<noteq> []\<close> have "word_boundary prev s" "word_boundary (Some (last tok)) rest"
    by (cases tok; cases rest; auto simp: word_boundary_def word_before_def split: option.splits)+
  with a tw show "match_ident prev s = Some (tok, rest)"
    by (simp add: match_ident_def)
qed


lemma token_from_after_match:
  assumes "3 \<le> length tok" and "list_all is_ident tok" and "\<not> before"
    and "rest = [] \<or> \<not> is_word (hd rest)"
  shows "token_from before (tok @ rest) t \<longleftrightarrow> t = tok \<or> token_from True rest t"
proof
  assume "token_from before (tok @ rest) t"
  then obtain pre post where eq: "tok @ rest = pre @ t @ post" and len: "3 \<le> length t"
    and ident: "list_all is_ident t"
    and left: "if pre = [] then \<not> before else \<not> is_word (last pre)"
    and right: "post = [] \<or> \<not> is_word (hd post)"
    by (auto simp: token_from_def)
  show "t = tok \<or> token_from True rest t"
  proof (cases "pre = []")
    case True
    from assms(4) have r: "rest = [] \<or> \<not> is_ident (hd rest)"
      using is_ident_word by blast
    from right have p: "post = [] \<or> \<not> is_ident (hd post)"
      using is_ident_word by blast
    have "takeWhile is_ident (tok @ rest) = tok"
      using assms(2) r by (rule run_is_takeWhile)
    moreover have "takeWhile is_ident (t @ post) = t"
      using ident p by (rule run_is_takeWhile)
    ultimately show ?thesis using eq True by simp
  next
    case False
    with left have nw: "\<not> is_word (last pre)" by simp
    have "\<not> length pre \<le> length tok"
    proof
      assume "length pre \<le> length tok"
      with eq have "prefix pre tok"
        by (metis prefixI prefix_length_prefix)
      with False have "last pre \<in> set tok"
        by (metis last_in_set prefixE set_append UnI1)
      with assms(2) nw show False
        by (simp add: list_all_iff is_ident_word)
    qed
    with eq obtain pre' where pre: "pre = tok @ pre'" and "pre' \<noteq> []"
      by (metis append_eq_append_conv2 append_self_conv length_append le_add1 nat_le_linear)
    with eq have "rest = pre' @ t @ post" by simp
    moreover from pre \<open>pre' \<noteq> []\<close> nw have "\<not> is_word (last pre')" by simp
    ultimately have "token_from True rest t"
      using len ident right \<open>pre' \<noteq> []\<close> by (auto simp: token_from_def)
    then show ?thesis ..
  qed
next
  assume "t = tok \<or> token_from True rest t"
  then show "token_from before (tok @ rest) t"
  proof
    assume "t = tok"
    with assms have "tok @ rest = [] @ t @ rest \<and> 3 \<le> length t \<and> list_all is_ident t \<and>
        (if [] = ([]::string) then \<not> before else \<not> is_word (last [])) \<and>
        (rest = [] \<or> \<not> is_word (hd rest))"
      by simp
    then show ?thesis unfolding token_from_def by blast
  next
    assume "token_from True rest t"
    then obtain pre post where "rest = pre @ t @ post" "3 \<le> length t" "list_all is_ident t"
      "pre \<noteq> []" "\<not> is_word (last pre)" "post = [] \<or> \<not> is_word (hd post)"
      by (auto simp: token_from_def split: if_splits)
    then have "tok @ rest = (tok @ pre) @ t @ post \<and> 3 \<le> length t \<and> list_all is_ident t \<and>
        (if tok @ pre = [] then \<not> before else \<not> is_word (last (tok @ pre))) \<and>
        (post = [] \<or> \<not> is_word (hd post))"
      by simp
    then show ?thesis unfolding token_from_def by blast
  qed
qed

lemma token_from_no_match:
  assumes "match_ident prev (c # cs) = None"
  shows "token_from (word_before prev) (c # cs) t \<longleftrightarrow> token_from (is_word c) cs t"
proof
  assume "token_from (word_before prev) (c # cs) t"
  then obtain pre post where eq: "c # cs = pre @ t @ post" and len: "3 \<le> length t"
    and ident: "list_all is_ident t"
    and left: "if pre = [] then \<not> word_before prev else \<not> is_word (last pre)"
    and right: "post = [] \<or> \<not> is_word (hd post)"
    by (auto simp: token_from_def)
  have "pre \<noteq> []"
  proof
    assume "pre = []"
    with eq len ident left right have "match_ident prev (c # cs) = Some (t, post)"
      by (simp add: match_ident_Some)
    with assms show False by simp
  qed
  then obtain pre' where pre: "pre = c # pre'"
    using eq by (cases pre) auto
  with eq have "cs = pre' @ t @ post" by simp
  moreover from pre left have "if pre' = [] then \<not> is_word c else \<not> is_word (last pre')"
    by (auto split: if_splits)
  ultimately show "token_from (is_word c) cs t"
    using len ident right unfolding token_from_def by blast
next
  assume "token_from (is_word c) cs t"
  then obtain pre post where "cs = pre @ t @ post" "3 \<le> length t" "list_all is_ident t"
    "if pre = [] then \<not> is_word c else \<not> is_word (last pre)" "post = [] \<or> \<not> is_word (hd post)"
    by (auto simp: token_from_def)
  then have "c # cs = (c # pre) @ t @ post \<and> 3 \<le> length t \<and> list_all is_ident t \<and>
      (if c # pre = [] then \<not> word_before prev else \<not> is_word (last (c # pre))) \<and>
      (post = [] \<or> \<not> is_word (hd post))"
    by (auto split: if_splits)
  then show "token_from (word_before prev) (c # cs) t"
    unfolding token_from_def by blast
qed

lemma findall_ident_tokens:
  "set (findall_ident prev s) = {t. token_from (word_before prev) s t}"
proof (induction prev s rule: findall_ident.induct)
  case (1 prev)
  show ?case by (auto simp: token_from_def)
next
  case (2 prev c cs)
  show ?case
  proof (cases "match_ident prev (c # cs)")
    case None
    with 2(1) token_from_no_match [OF None] show ?thesis
      by (simp add: word_before_def)
  next
    case (Some m)
    obtain tok rest where m: "m = (tok, rest)" by (cases m)
    with Some have facts: "c # cs = tok @ rest" "3 \<le> length tok" "list_all is_ident tok"
      "\<not> word_before prev" "rest = [] \<or> \<not> is_word (hd rest)"
      by (simp_all add: match_ident_Some)
    then have "tok \<noteq> []" by auto
    with facts(3) have "word_before (Some (last tok))"
      by (simp add: word_before_def list_all_iff is_ident_word)
    with 2(2) [OF Some m [symmetric]]
    have "set (findall_ident (Some (last tok)) rest) = {t. token_from True rest t}"
      by simp
    moreover have "findall_ident prev (c # cs) = tok # findall_ident (Some (last tok)) rest"
      using Some m by simp
    ultimately have "set (findall_ident prev (c # cs)) = {t. t = tok \<or> token_from True rest t}"
      by auto
    also have "\<dots> = {t. token_from (word_before prev) (tok @ rest) t}"
      using token_from_after_match [OF facts(2,3,4,5)] by simp
    finally show ?thesis by (simp only: facts(1))
  qed
qed

lemma ident_token_from: "ident_token text t \<longleftrightarrow> token_from False text t"
  by (auto simp: ident_token_def token_from_def)

lemma extract_keywords_nonempty:
  assumes "\<forall>xs. set (set_list xs) = set xs"
  shows "[] \<notin> set (extract_keywords set_list code)"
proof
  assume "[] \<in> set (extract_keywords set_list code)"
  with assms obtain t where "t \<in> set (findall_ident None code)" and "lower t = []"
    by (auto simp: extract_keywords_def)
  then have "token_from False code []"
    by (simp add: findall_ident_tokens word_before_def lower_def)
  then show False by (simp add: token_from_def)
qed

lemma code_blocks_keywords_nonempty:
  assumes "\<forall>xs. set (set_list xs) = set xs" and "b \<in> set (code_blocks md5 set_list text)"
  shows "[] \<notin> set (keywords b)"
  using assms extract_keywords_nonempty [OF assms(1)]
  by (auto simp: code_blocks_def block_of_match_def Let_def)

section \<open>The keyword deriver\<close>

text \<open>
  Claim C6. Whatever the order in which the set of keywords is enumerated,
  \<open>extract_keywords\<close> returns each keyword once, and the keywords are exactly the
  lowercased tokens of the text: the runs of at least three characters of
  \<open>[A-Za-z_]\<close> with a word boundary on both sides, those left out that are uppercase
  as written (\<open>str.isupper\<close>: no lowercase letter and at least one uppercase letter).
\<close>

theorem extract_keywords_tokens:
  assumes "\<forall>xs. set (set_list xs) = set xs \<and> distinct (set_list xs)"
  shows "set (extract_keywords set_list code) = {lower t |t. ident_token code t \<and> \<not> isupper t} \<and>
         distinct (extract_keywords set_list code)"
proof -
  have "set (findall_ident None code) = {t. ident_token code t}"
    by (simp add: findall_ident_tokens ident_token_from word_before_def)
  with assms show ?thesis
    by (auto simp: extract_keywords_def)
qed

theorem extract_keywords_tokens_witness:
  "extract_keywords remdups ''def foo_bar(ABC, ab, abc1, Def)'' = [''foo_bar'', ''def''] \<and>
   {lower t |t. ident_token ''def foo_bar(ABC, ab, abc1, Def)'' t \<and> \<not> isupper t}
     = {''foo_bar'', ''def''}"
proof -
  let ?code = "''def foo_bar(ABC, ab, abc1, Def)''"
  have order: "\<forall>xs :: string list. set (remdups xs) = set xs \<and> distinct (remdups xs)"
    by simp
  have found: "findall_ident None ?code = [''def'', ''foo_bar'', ''ABC'', ''Def'']"
    by (simp add: match_ident_def word_boundary_def char_eval)
  have "extract_keywords remdups ?code = [''foo_bar'', ''def'']"
    unfolding extract_keywords_def found by (simp add: isupper_def char_eval)
  with extract_keywords_tokens [OF order, of ?code] show ?thesis
    by (simp add: insert_commute)
qed

section \<open>Facts about the naming loop\<close>


lemma str_nat_not_Nil: "str_nat n \<noteq> []"
  by (subst str_nat.simps) simp

lemma digit_inj:
  assumes "a < 10" and "b < 10" and "of_code_point (48 + a) = of_code_point (48 + b)"
  shows "a = b"
proof -
  from assms(3) have "code_point (of_code_point (48 + a)) = code_point (of_code_point (48 + b))"
    by simp
  with assms(1,2) show ?thesis by (simp add: code_point_of_code_point)
qed

lemma str_nat_inj: "str_nat n = str_nat m \<Longrightarrow> n = m"
proof (induction n arbitrary: m rule: less_induct)
  case (less n)
  show ?case
  proof (cases "n < 10")
    case True
    then have n: "str_nat n = [of_code_point (48 + n)]"
      by (subst str_nat.simps) simp
    show ?thesis
    proof (cases "m < 10")
      case True
      then have "str_nat m = [of_code_point (48 + m)]"
        by (subst str_nat.simps) simp
      with n less.prems \<open>n < 10\<close> True show ?thesis
        by (auto dest: digit_inj)
    next
      case False
      then have "str_nat m = str_nat (m div 10) @ [of_code_point (48 + m mod 10)]"
        by (subst str_nat.simps) simp
      with n less.prems show ?thesis
        by (simp add: str_nat_not_Nil str_nat_not_Nil [symmetric])
    qed
  next
    case False
    then have n: "str_nat n = str_nat (n div 10) @ [of_code_point (48 + n mod 10)]"
      by (subst str_nat.simps) simp
    show ?thesis
    proof (cases "m < 10")
      case True
      then have "str_nat m = [of_code_point (48 + m)]"
        by (subst str_nat.simps) simp
      with n less.prems show ?thesis
        by (simp add: str_nat_not_Nil str_nat_not_Nil [symmetric])
    next
      case m: False
      then have "str_nat m = str_nat (m div 10) @ [of_code_point (48 + m mod 10)]"
        by (subst str_nat.simps) simp
      with n less.prems have eq: "str_nat (n div 10) = str_nat (m div 10)"
        and d: "of_code_point (48 + n mod 10) = of_code_point (48 + m mod 10)"
        by simp_all
      from False have "n div 10 < n" by simp
      from less.IH [OF this eq] have "n div 10 = m div 10" .
      moreover have "n mod 10 = m mod 10"
        by (rule digit_inj [OF _ _ d]) simp_all
      ultimately show ?thesis
        by (metis div_mult_mod_eq)
    qed
  qed
qed

lemma str_nat_digits: "c \<in> set (str_nat n) \<Longrightarrow> in_range 48 57 c"
proof (induction n rule: str_nat.induct)
  case (1 n)
  have digit: "in_range 48 57 (of_code_point (48 + d))" if "d < 10" for d
    using that by (simp add: in_range_def code_point_of_code_point)
  show ?case
  proof (cases "n < 10")
    case True
    with 1(2) digit show ?thesis
      by (subst (asm) str_nat.simps) auto
  next
    case False
    with 1 digit [of "n mod 10"] show ?thesis
      by (subst (asm) (2) str_nat.simps) auto
  qed
qed

lemma candidate_inj: "inj (candidate base_name ext)"
proof (rule injI)
  fix n m assume eq: "candidate base_name ext n = candidate base_name ext m"
  have len: "length (candidate base_name ext k) > length (base_name @ ext)" if "k \<noteq> 0" for k
    using that str_nat_not_Nil [of k] by (simp add: candidate_def)
  show "n = m"
  proof (cases "n = 0 \<or> m = 0")
    case True
    with eq len [of n] len [of m] show ?thesis
      by (cases "n = 0"; cases "m = 0") (auto simp: candidate_def)
  next
    case False
    with eq show ?thesis by (auto simp: candidate_def dest: str_nat_inj)
  qed
qed

lemma duplicate_loop_finds:
  assumes "i \<le> k"
    and "\<forall>j. i \<le> j \<and> j < k \<longrightarrow> exists (candidate base_name ext j)"
    and "\<not> exists (candidate base_name ext k)"
  shows "duplicate_loop exists base_name ext (candidate base_name ext i) (Suc i)
         = Some (candidate base_name ext k)"
  using assms
proof (induction "k - i" arbitrary: i)
  case 0
  then have "i = k" by simp
  with 0 show ?case by (subst duplicate_loop.simps) simp
next
  case (Suc d)
  then have "i < k" by simp
  with Suc.prems have ex: "exists (candidate base_name ext i)" by simp
  have next_name: "base_name @ ''_'' @ str_nat (Suc i) @ ext = candidate base_name ext (Suc i)"
    by (simp add: candidate_def)
  have "duplicate_loop exists base_name ext (candidate base_name ext (Suc i)) (Suc (Suc i))
        = Some (candidate base_name ext k)"
    using Suc.hyps(2) Suc.prems \<open>i < k\<close> by (intro Suc.hyps(1)) auto
  with ex next_name show ?case
    by (subst duplicate_loop.simps) simp
qed


lemma prefix_slashes_append:
  assumes "set P \<subseteq> {CHR ''/''}" and "c \<noteq> CHR ''/''"
  shows "prefix P (u @ c # t) \<longleftrightarrow> prefix P (u @ [c])"
proof
  assume "prefix P (u @ c # t)"
  then have "prefix P ((u @ [c]) @ t)" by simp
  then consider "prefix P (u @ [c])" | us where "P = (u @ [c]) @ us"
    unfolding prefix_append by blast
  then show "prefix P (u @ [c])"
  proof cases
    case 2
    then have "c \<in> set P" by simp
    with assms show ?thesis by auto
  qed
next
  assume "prefix P (u @ [c])"
  then have "prefix P ((u @ [c]) @ t)" by (rule prefix_prefix)
  then show "prefix P (u @ c # t)" by simp
qed

lemma anchor_append:
  assumes "c \<noteq> CHR ''/''"
  shows "anchor (u @ c # t) = anchor (u @ [c])"
proof -
  have "prefix P (u @ c # t) \<longleftrightarrow> prefix P (u @ [c])"
    if "P = ''/'' \<or> P = ''//'' \<or> P = ''///''" for P
    using that assms by (intro prefix_slashes_append) auto
  then show ?thesis
    unfolding anchor_def by presburger
qed

lemma split_on_append:
  "split_on sep (xs @ ys) =
     butlast (split_on sep xs) @ (last (split_on sep xs) @ hd (split_on sep ys)) # tl (split_on sep ys)"
proof (induction xs)
  case Nil
  then show ?case by (simp add: split_on_not_Nil)
next
  case (Cons c xs)
  then show ?case
    by (cases "split_on sep xs"; cases "split_on sep (xs @ ys)"; cases "butlast (split_on sep xs)")
       (auto simp: split_on_not_Nil split: list.splits)
qed

lemma split_on_no_sep: "sep \<notin> set s \<Longrightarrow> split_on sep s = [s]"
  by (induction s) auto


lemma slash_not_digit: "CHR ''/'' \<notin> set (str_nat n)"
proof
  assume "CHR ''/'' \<in> set (str_nat n)"
  then have "in_range 48 57 (CHR ''/'')" by (rule str_nat_digits)
  then show False by (simp add: in_range_def code_point_def)
qed

lemma dot_not_digit: "CHR ''.'' \<notin> set (str_nat n)"
proof
  assume "CHR ''.'' \<in> set (str_nat n)"
  then have "in_range 48 57 (CHR ''.'')" by (rule str_nat_digits)
  then show False by (simp add: in_range_def code_point_def)
qed

text \<open>The parts of the path of a numbered candidate: all but one are the same for every number.\<close>

lemma path_join_candidate:
  "\<exists>X L H Y. \<forall>n>0. path_join dest (candidate base_name ext n) = X @ (L @ str_nat n @ H) # Y"
proof -
  let ?u = "base_name @ ''_''"
  let ?ok = "\<lambda>p. p \<noteq> [] \<and> p \<noteq> ''.''"
  define A where "A = butlast (split_on (CHR ''/'') ?u)"
  define L where "L = last (split_on (CHR ''/'') ?u)"
  define H where "H = hd (split_on (CHR ''/'') ext)"
  define T where "T = tl (split_on (CHR ''/'') ext)"
  define X where "X = (if anchor ?u = [] then dest else []) @ anchor ?u @ filter ?ok A"
  have "path_join dest (candidate base_name ext n) = X @ (L @ str_nat n @ H) # filter ?ok T"
    if "n > 0" for n
  proof -
    define s where "s = ?u @ str_nat n @ ext"
    have cand: "candidate base_name ext n = s"
      using that by (simp add: candidate_def s_def)
    have "split_on (CHR ''/'') (str_nat n @ ext) = (str_nat n @ H) # T"
      by (simp add: split_on_append [of _ "str_nat n"] split_on_no_sep slash_not_digit H_def T_def)
    then have split: "split_on (CHR ''/'') s = A @ (L @ str_nat n @ H) # T"
      unfolding s_def using split_on_append [of "CHR ''/''" ?u "str_nat n @ ext"]
      by (simp only: A_def L_def list.sel)
    have anchor: "anchor s = anchor ?u"
      unfolding s_def using anchor_append [of "CHR ''_''" base_name "str_nat n @ ext"] by simp
    have ok: "?ok (L @ str_nat n @ H)"
    proof -
      obtain d where "d \<in> set (str_nat n)"
        using str_nat_not_Nil [of n] by (cases "str_nat n") auto
      moreover from this dot_not_digit [of n] have "d \<noteq> CHR ''.''" by auto
      ultimately have "d \<in> set (L @ str_nat n @ H)" "d \<notin> set ''.''" by simp_all
      then show ?thesis by (metis empty_iff empty_set)
    qed
    have "filter ?ok (split_on (CHR ''/'') s) = filter ?ok A @ (L @ str_nat n @ H) # filter ?ok T"
      unfolding split using ok by simp
    then show ?thesis
      unfolding cand path_join_def path_parts_def anchor X_def by simp
  qed
  then show ?thesis by blast
qed

lemma path_join_candidate_inj:
  "inj_on (\<lambda>n. path_join dest (candidate base_name ext n)) {0<..}"
proof -
  obtain X L H Y where
    eq: "\<And>n. n > 0 \<Longrightarrow> path_join dest (candidate base_name ext n) = X @ (L @ str_nat n @ H) # Y"
    using path_join_candidate by blast
  show ?thesis
  proof (rule inj_onI)
    fix n m :: nat
    assume "n \<in> {0<..}" "m \<in> {0<..}"
      and "path_join dest (candidate base_name ext n) = path_join dest (candidate base_name ext m)"
    then have "X @ (L @ str_nat n @ H) # Y = X @ (L @ str_nat m @ H) # Y"
      by (simp add: eq)
    then have "str_nat n = str_nat m" by simp
    then show "n = m" by (rule str_nat_inj)
  qed
qed

lemma path_exists_finite: "finite {p. path_exists fs p}"
proof -
  have "{p. path_exists fs p} \<subseteq> {[], [''/''], [''//'']} \<union> fmdom' fs"
    by (auto simp: path_exists_def node_at_def fmdom'I split: if_splits)
  then show ?thesis by (rule finite_subset) simp
qed

lemma free_candidate:
  "\<exists>k. \<not> path_exists fs (path_join dest (candidate base_name ext k))"
proof (rule ccontr)
  let ?f = "\<lambda>n. path_join dest (candidate base_name ext n)"
  assume "\<not> ?thesis"
  then have "?f ` {0<..} \<subseteq> {p. path_exists fs p}" by auto
  then have "finite (?f ` {0<..})"
    using path_exists_finite by (rule finite_subset)
  then have "finite ({0<..} :: nat set)"
    using path_join_candidate_inj by (rule finite_imageD)
  then show False by (simp add: infinite_Ioi)
qed

lemma generate_filename_least:
  "\<exists>n. generate_filename b dest_dir fs =
         Some (candidate (base_name_of b) (get_extension (language b)) n) \<and>
       \<not> path_exists fs
           (path_join dest_dir (candidate (base_name_of b) (get_extension (language b)) n)) \<and>
       (\<forall>m<n. path_exists fs
           (path_join dest_dir (candidate (base_name_of b) (get_extension (language b)) m)))"
proof -
  let ?c = "candidate (base_name_of b) (get_extension (language b))"
  let ?ex = "\<lambda>name. path_exists fs (path_join dest_dir name)"
  define k where "k = (LEAST k. \<not> ?ex (?c k))"
  have free: "\<not> ?ex (?c k)"
    unfolding k_def using free_candidate by (rule LeastI_ex)
  have taken: "\<forall>j. 0 \<le> j \<and> j < k \<longrightarrow> ?ex (?c j)"
    unfolding k_def using not_less_Least by blast
  have "duplicate_loop ?ex (base_name_of b) (get_extension (language b)) (?c 0) (Suc 0) = Some (?c k)"
    using duplicate_loop_finds [of 0 k ?ex, OF _ taken free] by simp
  then have "generate_filename b dest_dir fs = Some (?c k)"
    by (simp add: generate_filename_def Let_def candidate_def)
  with free taken show ?thesis by blast
qed








section \<open>The namer\<close>




text \<open>
  Claim C8. The loop of \<open>generate_filename\<close> ends for every block, destination and
  file system: the candidate names are pairwise distinct, and the function returns a
  name.
\<close>

theorem generate_filename_terminates:
  "inj (candidate (base_name_of b) (get_extension (language b))) \<and>
   (\<exists>name. generate_filename b dest_dir fs = Some name)"
  using generate_filename_least [of b dest_dir fs] candidate_inj by blast

theorem generate_filename_terminates_witness:
  "\<exists>name. generate_filename \<lparr>language = ''txt'', content = ''x'', hash = [], keywords = []\<rparr>
      [''out''] (fmupd [''out'', ''code.txt''] (File ''x'') (fmupd [''out''] Dir fmempty)) = Some name"
  using generate_filename_terminates by blast

section \<open>Facts about the file system and the writing loop\<close>








lemma duplicate_loop_stop:
  "\<not> exists filename \<Longrightarrow> duplicate_loop exists base_name ext filename counter = Some filename"
  by (subst duplicate_loop.simps) simp



lemma strip_spaces:
  assumes "list_all is_space t"
  shows "strip t = []"
proof -
  from assms have empty: "dropWhile is_space t = []"
    by (induction t) simp_all
  show ?thesis unfolding strip_def empty by simp
qed

lemma universal_newlines_id: "carriage_return \<notin> set s \<Longrightarrow> universal_newlines s = s"
  by (induction s rule: universal_newlines.induct) (auto simp: universal_newlines.simps)


lemmas read_eval = read_text_def universal_newlines_id carriage_return_def newline_def

section \<open>The materializer\<close>

text \<open>
  Claim C9. When the first hint line has, between its first \<open>#\<close> and the next \<open>#\<close> or
  the end of the line, a text \<open>token\<close>, the category is \<open>token\<close> stripped, whether or
  not the marker that made the line a hint line sits there. When \<open>token\<close> is empty or
  whitespace only, the category is the empty string; joining it to the output
  directory gives the output directory itself, so that directory is the one created,
  the one the name is generated for, and the one the file of the block is written in.
\<close>

theorem empty_hint_category:
  assumes "split_on newline (content b) = pre @ l # post"
    and "\<forall>x \<in> set pre. \<not> hint_line x" and "hint_line l"
    and "l = before @ CHR ''#'' # token @ after"
    and "CHR ''#'' \<notin> set before" and "CHR ''#'' \<notin> set token"
    and "after = [] \<or> hd after = CHR ''#''"
  shows "determine_category b = Inr (strip token) \<and>
         (list_all is_space token \<longrightarrow>
            determine_category b = Inr [] \<and>
            path_join output_dir [] = output_dir \<and>
            organize_code output_dir (b # bs) fs =
              (case mkdir output_dir fs of
                 Inl e \<Rightarrow> Some (Inl e)
               | Inr fs1 \<Rightarrow>
                   (case generate_filename b output_dir fs1 of
                      None \<Rightarrow> None
                    | Some filename \<Rightarrow>
                        (case write_text (path_join output_dir filename) (content b) fs1 of
                           Inl e \<Rightarrow> Some (Inl e)
                         | Inr fs2 \<Rightarrow> organize_code output_dir bs fs2))))"
proof -
  have join: "path_join output_dir [] = output_dir"
    by (simp add: path_join_def path_parts_def anchor_def)
  have cat: "determine_category b = Inr (strip token)"
    using assms(1-3) field_after_decomposition [OF assms(4-7)]
    by (simp add: determine_category_def hint_loop_first)
  moreover have "determine_category b = Inr []" if "list_all is_space token"
    using cat that by (simp add: strip_spaces)
  ultimately show ?thesis
    by (simp add: join Let_def)
qed

theorem empty_hint_category_witness:
  "determine_category
     \<lparr>language = ''txt'', content = ''x# y #tests'', hash = [], keywords = [''tests'']\<rparr>
     = Inr ''y'' \<and>
   determine_category
     \<lparr>language = ''txt'', content = ''# #tests'', hash = [], keywords = [''tests'']\<rparr> = Inr [] \<and>
   organize_code [''organized_code'']
     [\<lparr>language = ''txt'', content = ''# #tests'', hash = [], keywords = [''tests'']\<rparr>] fmempty
   = Some (Inr (fmupd [''organized_code'', ''tests.txt''] (File ''# #tests'')
        (fmupd [''organized_code''] Dir fmempty)))"
proof -
  let ?b = "\<lparr>language = ''txt'', content = ''# #tests'', hash = [], keywords = [''tests'']\<rparr>"
  let ?fs1 = "fmupd [''organized_code''] Dir fmempty"
  have lines: "split_on newline (content ?b) = [] @ ''# #tests'' # []"
    by (simp add: newline_def)
  have hint: "hint_line ''# #tests''"
    by (simp add: hint_line_def component_patterns_def sublist_code char_eval)
  have parts: "''# #tests'' = [] @ CHR ''#'' # '' '' @ ''#tests''"
    by simp
  have space: "list_all is_space '' ''"
    by (simp add: char_eval)
  have mk: "mkdir [''organized_code''] fmempty = Inr ?fs1"
    by (simp add: mkdir_def path_eval)
  have gen: "generate_filename ?b [''organized_code''] ?fs1 = Some ''tests.txt''"
    by (simp add: generate_filename_def base_name_of_def get_extension_def extensions_def
        duplicate_loop_stop path_eval)
  have wr: "write_text (path_join [''organized_code''] ''tests.txt'') (content ?b) ?fs1
      = Inr (fmupd [''organized_code'', ''tests.txt''] (File ''# #tests'') ?fs1)"
    by (simp add: write_text_def path_eval)
  have no_pre: "\<forall>x \<in> set []. \<not> hint_line x"
    by simp
  have h5: "CHR ''#'' \<notin> set []" and h6: "CHR ''#'' \<notin> set '' ''"
    and h7: "''#tests'' = [] \<or> hd ''#tests'' = CHR ''#''"
    by simp_all
  note inst = empty_hint_category [OF lines no_pre hint parts h5 h6 h7,
      of "[''organized_code'']" "[]" fmempty]
  from inst space have "determine_category ?b = Inr []"
    by blast
  moreover from inst space have "organize_code [''organized_code''] [?b] fmempty =
      (case mkdir [''organized_code''] fmempty of
         Inl e \<Rightarrow> Some (Inl e)
       | Inr fs1 \<Rightarrow>
           (case generate_filename ?b [''organized_code''] fs1 of
              None \<Rightarrow> None
            | Some filename \<Rightarrow>
                (case write_text (path_join [''organized_code''] filename) (content ?b) fs1 of
                   Inl e \<Rightarrow> Some (Inl e)
                 | Inr fs2 \<Rightarrow> organize_code [''organized_code''] [] fs2)))"
    by blast
  then have "organize_code [''organized_code''] [?b] fmempty =
      Some (Inr (fmupd [''organized_code'', ''tests.txt''] (File ''# #tests'') ?fs1))"
    by (simp only: mk gen wr sum.case option.case organize_code.simps)
  moreover have "determine_category
      \<lparr>language = ''txt'', content = ''x# y #tests'', hash = [], keywords = [''tests'']\<rparr>
      = Inr ''y''"
  proof -
    let ?c = "\<lparr>language = ''txt'', content = ''x# y #tests'', hash = [], keywords = [''tests'']\<rparr>"
    have lines': "split_on newline (content ?c) = [] @ ''x# y #tests'' # []"
      by (simp add: newline_def)
    have hint': "hint_line ''x# y #tests''"
      by (simp add: hint_line_def component_patterns_def sublist_code char_eval)
    have parts': "''x# y #tests'' = ''x'' @ CHR ''#'' # '' y '' @ ''#tests''"
      by simp
    have "determine_category ?c = Inr (strip '' y '')"
      using empty_hint_category [OF lines' no_pre hint' parts', THEN conjunct1] by simp
    moreover have "strip '' y '' = ''y''"
      by (simp add: strip_def char_eval)
    ultimately show ?thesis by simp
  qed
  ultimately show ?thesis by blast
qed

text \<open>
  Claim C10. When the pattern finds no fenced region in the transcript, \<open>process_chat\<close>
  returns the file system it was given: no file is written and no directory is
  created, the output directory included.
\<close>

theorem no_regions_no_effect:
  assumes "read_text chat_file fs = Inr text" and "finditer_fence text = []"
  shows "process_chat md5 set_list output_dir chat_file fs = Some (Inr fs)"
  using assms by (simp add: process_chat_def extract_code_blocks_def code_blocks_def)

theorem no_regions_no_effect_witness:
  "process_chat (\<lambda>s. []) remdups [''organized_code''] ''chat.txt''
     (fmupd [''chat.txt''] (File ''no `` code'') fmempty)
   = Some (Inr (fmupd [''chat.txt''] (File ''no `` code'') fmempty)) \<and>
   node_at (fmupd [''chat.txt''] (File ''no `` code'') fmempty) [''organized_code''] = None"
proof -
  let ?fs = "fmupd [''chat.txt''] (File ''no `` code'') fmempty"
  have read: "read_text ''chat.txt'' ?fs = Inr ''no `` code''"
    by (simp add: read_eval path_eval)
  have none: "finditer_fence ''no `` code'' = []"
    by (simp add: match_fence_def fence_def)
  have "node_at ?fs [''organized_code''] = None"
    by (simp add: node_at_def)
  with no_regions_no_effect [OF read none] show ?thesis by simp
qed




section \<open>Facts about the fence pattern\<close>

lemma backtick_not_word: "\<not> is_word (CHR ''`'')"
  by (simp add: char_eval)

lemma newline_not_word: "\<not> is_word newline"
  by (simp add: char_eval)

lemma fence_free_Cons: "fence_free (c # s) \<longleftrightarrow> \<not> prefix fence (c # s) \<and> fence_free s"
  by (simp add: fence_free_def sublist_Cons_right)

lemma lazy_until_fence_None: "fence_free s \<Longrightarrow> lazy_until_fence s = None"
  by (induction s) (simp_all add: fence_free_Cons)

lemma finditer_fence_free: "fence_free s \<Longrightarrow> finditer_fence s = []"
  by (induction s) (simp_all add: fence_free_Cons match_fence_def)

text \<open>Backticks of the prose that touch a delimiter do not open a region.\<close>

lemma match_fence_in_prose:
  assumes "fence_free (c # p)"
  shows "match_fence (c # p @ fence @ x) = None"
proof (cases "prefix fence (c # p @ fence @ x)")
  case False
  then show ?thesis by (simp add: match_fence_def)
next
  case True
  from assms have no: "\<not> prefix fence (c # p)"
    by (simp add: fence_free_Cons)
  have short: "p = [] \<or> (\<exists>d. p = [d])"
  proof (rule ccontr)
    assume "\<not> ?thesis"
    then obtain d e p' where "p = d # e # p'"
      by (metis list.exhaust)
    with True no show False by (auto simp: fence_def)
  qed
  then have "\<exists>y. drop 3 (c # p @ fence @ x) = CHR ''`'' # y"
    using True by (auto simp: fence_def)
  then obtain y where "drop 3 (c # p @ fence @ x) = CHR ''`'' # y" ..
  then show ?thesis
    by (simp add: match_fence_def backtick_not_word newline_def)
qed

lemma finditer_fence_prose:
  "fence_free prose \<Longrightarrow> finditer_fence (prose @ fence @ x) = finditer_fence (fence @ x)"
proof (induction prose)
  case Nil
  show ?case by simp
next
  case (Cons c p)
  then have "fence_free p" by (simp add: fence_free_Cons)
  with Cons.IH match_fence_in_prose [OF Cons.prems] show ?case by simp
qed

lemma lazy_until_fence_body:
  assumes "fence_free body" and "body = [] \<or> last body \<noteq> CHR ''`''"
  shows "lazy_until_fence (body @ fence @ rest) = Some (body, rest)"
  using assms
proof (induction body)
  case Nil
  show ?case by (simp add: fence_def)
next
  case (Cons c b)
  from Cons.prems(1) have no: "\<not> prefix fence (c # b)" and free: "fence_free b"
    by (simp_all add: fence_free_Cons)
  have "\<not> prefix fence (c # b @ fence @ rest)"
  proof
    assume pre: "prefix fence (c # b @ fence @ rest)"
    show False
    proof (cases b)
      case Nil
      with pre Cons.prems(2) show False by (simp add: fence_def)
    next
      case (Cons d b')
      show False
      proof (cases b')
        case Nil
        with pre Cons.prems(2) \<open>b = d # b'\<close> show False by (auto simp: fence_def)
      next
        case (Cons e b'')
        with pre no \<open>b = d # b'\<close> show False by (auto simp: fence_def)
      qed
    qed
  qed
  moreover from Cons.prems(2) have "b = [] \<or> last b \<noteq> CHR ''`''"
    by (auto split: if_splits)
  ultimately show ?case
    using Cons.IH [OF free] by simp
qed

lemma match_fence_region:
  assumes "list_all is_word tag" and "fence_free body" and "body = [] \<or> last body \<noteq> CHR ''`''"
  shows "match_fence (fence @ tag @ [newline] @ body @ fence @ rest)
         = Some (if tag = [] then None else Some tag, body, rest)"
proof -
  have "takeWhile is_word (tag @ newline # body @ fence @ rest) = tag"
    and "dropWhile is_word (tag @ newline # body @ fence @ rest) = newline # body @ fence @ rest"
    using run_is_takeWhile [of is_word tag "newline # body @ fence @ rest"] assms(1)
    by (simp_all add: newline_not_word)
  then show ?thesis
    using lazy_until_fence_body [OF assms(2,3), of rest]
    by (simp add: match_fence_def fence_def)
qed

lemma finditer_fence_at_fence:
  "finditer_fence (fence @ x) =
     (case match_fence (fence @ x) of
        Some (lang, code, rest) \<Rightarrow> (lang, code) # finditer_fence rest
      | None \<Rightarrow> finditer_fence (tl (fence @ x)))"
  by (simp add: fence_def split: option.splits)

lemma finditer_fence_region:
  assumes "well_formed_region r"
  shows "finditer_fence (render_region r @ rest) = match_of_region r # finditer_fence rest"
proof -
  obtain prose tag body where r: "r = (prose, tag, body)" by (cases r)
  with assms have wf: "fence_free prose" "list_all is_word tag" "fence_free body"
    "body = [] \<or> last body \<noteq> CHR ''`''"
    by (simp_all add: well_formed_region_def)
  let ?x = "tag @ [newline] @ body @ fence @ rest"
  have "finditer_fence (render_region r @ rest) = finditer_fence (fence @ ?x)"
    using finditer_fence_prose [OF wf(1), of ?x] by (simp add: r render_region_def)
  also have "\<dots> = match_of_region r # finditer_fence rest"
    using match_fence_region [OF wf(2,3,4), of rest]
    by (subst finditer_fence_at_fence) (simp add: r match_of_region_def)
  finally show ?thesis .
qed


lemma word_not_backtick: "is_word c \<Longrightarrow> c \<noteq> CHR ''`''"
  using backtick_not_word by auto

lemma fence_free_opener_rest:
  assumes "list_all is_word tag" and "fence_free body"
  shows "fence_free (tag @ [newline] @ body)"
  using assms
proof (induction tag)
  case Nil
  then show ?case by (simp add: fence_free_Cons fence_def newline_def)
next
  case (Cons c tag)
  then show ?case
    by (auto simp: fence_free_Cons fence_def dest: word_not_backtick)
qed

lemma finditer_fence_ending:
  assumes "well_formed_ending e"
  shows "finditer_fence (render_ending e) = []"
proof (cases e)
  case (Prose t)
  with assms show ?thesis by (simp add: finditer_fence_free)
next
  case (Unterminated prose tag body)
  with assms have wf: "fence_free prose" "list_all is_word tag" "fence_free body"
    by simp_all
  let ?x = "tag @ [newline] @ body"
  have free: "fence_free ?x"
    using wf(2,3) by (rule fence_free_opener_rest)
  have "takeWhile is_word (tag @ newline # body) = tag"
    and "dropWhile is_word (tag @ newline # body) = newline # body"
    using run_is_takeWhile [of is_word tag "newline # body"] wf(2)
    by (simp_all add: newline_not_word)
  then have none: "match_fence (fence @ ?x) = None"
    using lazy_until_fence_None [OF wf(3)] by (simp add: match_fence_def fence_def)
  have "\<not> prefix fence (''``'' @ ?x)" and "\<not> prefix fence (''`'' @ ?x)"
    using wf(2) by (cases tag; auto simp: fence_def newline_def dest: word_not_backtick)+
  with free have "fence_free (tl (fence @ ?x))"
    by (simp add: fence_def fence_free_Cons)
  then have "finditer_fence (tl (fence @ ?x)) = []"
    by (rule finditer_fence_free)
  with none have "finditer_fence (fence @ ?x) = []"
    by (subst finditer_fence_at_fence) simp
  then show ?thesis
    using finditer_fence_prose [OF wf(1), of ?x] by (simp add: Unterminated)
qed

lemma finditer_fence_regions:
  assumes "\<forall>r \<in> set regions. well_formed_region r"
  shows "finditer_fence (concat (map render_region regions) @ rest)
         = map match_of_region regions @ finditer_fence rest"
  using assms by (induction regions) (simp_all add: finditer_fence_region)

section \<open>The extractor\<close>

text \<open>
  Claim C3, as it holds. For a transcript made of well-formed fenced regions, each
  after prose without delimiter, that ends with prose without delimiter or with one
  unterminated region (an opening delimiter, its tag and newline, and then no
  delimiter any more), the pattern finds exactly the regions, in document order, and
  \<open>extract_code_blocks\<close> returns one block for each: the lowercased tag or \<open>txt\<close>, the
  stripped body, its digest and its keywords. The unterminated region at the end
  gives no block.
\<close>

theorem extract_well_formed_regions:
  assumes "\<forall>r \<in> set regions. well_formed_region r" and "well_formed_ending e"
    and "read_text chat_file fs = Inr (concat (map render_region regions) @ render_ending e)"
  shows "finditer_fence (concat (map render_region regions) @ render_ending e)
           = map match_of_region regions \<and>
         extract_code_blocks md5 set_list chat_file fs
           = Inr (map (\<lambda>(prose, tag, body).
                \<lparr>language = lower (if tag = [] then ''txt'' else tag), content = strip body,
                 hash = md5 (strip body), keywords = extract_keywords set_list (strip body)\<rparr>)
               regions)"
proof -
  have found: "finditer_fence (concat (map render_region regions) @ render_ending e)
      = map match_of_region regions"
    using finditer_fence_regions [OF assms(1)] finditer_fence_ending [OF assms(2)] by simp
  have "block_of_match md5 set_list (match_of_region r) =
      (case r of (prose, tag, body) \<Rightarrow>
        \<lparr>language = lower (if tag = [] then ''txt'' else tag), content = strip body,
         hash = md5 (strip body), keywords = extract_keywords set_list (strip body)\<rparr>)" for r
    by (cases r) (simp add: block_of_match_def match_of_region_def Let_def)
  with found assms(3) show ?thesis
    by (simp add: extract_code_blocks_def code_blocks_def)
qed

theorem extract_well_formed_regions_witness:
  "extract_code_blocks (\<lambda>s. []) remdups ''chat''
     (fmupd [''chat'']
        (File (''see '' @ ''```'' @ ''Py'' @ [newline] @ ''x = 1'' @ [newline] @ ''```'' @
               '' and ``'' @ ''```'' @ [newline] @ ''y'' @ ''```'' @
               '' then '' @ ''```'' @ ''js'' @ [newline] @ ''z''))
        fmempty)
   = Inr [\<lparr>language = ''py'', content = ''x = 1'', hash = [], keywords = []\<rparr>,
          \<lparr>language = ''txt'', content = ''y'', hash = [], keywords = []\<rparr>]"
proof -
  let ?regions = "[(''see '', ''Py'', ''x = 1'' @ [newline]), ('' and ``'', [], ''y'')]"
  let ?ending = "Unterminated '' then '' ''js'' ''z''"
  let ?text = "concat (map render_region ?regions) @ render_ending ?ending"
  have regions: "\<forall>r \<in> set ?regions. well_formed_region r"
    by (simp add: well_formed_region_def fence_free_def fence_def sublist_code char_eval)
  have ending: "well_formed_ending ?ending"
    by (simp add: fence_free_def fence_def sublist_code char_eval)
  have read: "read_text ''chat'' (fmupd [''chat''] (File ?text) fmempty) = Inr ?text"
    by (simp add: read_eval path_eval render_region_def fence_def)
  have stripped: "strip (''x = 1'' @ [newline]) = ''x = 1''" "strip ''y'' = ''y''"
    by (simp_all add: strip_def char_eval)
  have kw: "extract_keywords remdups ''x = 1'' = []" "extract_keywords remdups ''y'' = []"
    by (simp_all add: extract_keywords_def match_ident_def word_boundary_def char_eval)
  have tags: "lower ''Py'' = ''py''" "lower ''txt'' = ''txt''"
    by (simp_all add: char_eval)
  have whole: "?text = ''see '' @ ''```'' @ ''Py'' @ [newline] @ ''x = 1'' @ [newline] @ ''```'' @
      '' and ``'' @ ''```'' @ [newline] @ ''y'' @ ''```'' @
      '' then '' @ ''```'' @ ''js'' @ [newline] @ ''z''"
    by (simp add: render_region_def fence_def)
  from extract_well_formed_regions [OF regions ending read, THEN conjunct2,
      of "\<lambda>s. []" remdups]
  have "extract_code_blocks (\<lambda>s. []) remdups ''chat'' (fmupd [''chat''] (File ?text) fmempty)
      = Inr [\<lparr>language = ''py'', content = ''x = 1'', hash = [], keywords = []\<rparr>,
             \<lparr>language = ''txt'', content = ''y'', hash = [], keywords = []\<rparr>]"
    by (simp add: stripped kw tags del: append.simps)
  then show ?thesis by (simp only: whole)
qed

text \<open>
  Claim C3 as stated lets an unterminated region stand anywhere. Here two opening
  delimiters that nothing closes come before one well-formed region: the pattern
  closes the first at the delimiter of the second, and finds two regions where the
  transcript has one.
\<close>

theorem unterminated_before_region_counterexample:
  "well_formed_ending (Unterminated [] ''a'' (''x'' @ [newline])) \<and>
   well_formed_ending (Unterminated [] ''b'' (''y'' @ [newline])) \<and>
   well_formed_region ([], ''c'', ''z'' @ [newline]) \<and>
   finditer_fence (render_ending (Unterminated [] ''a'' (''x'' @ [newline])) @
                   render_ending (Unterminated [] ''b'' (''y'' @ [newline])) @
                   render_region ([], ''c'', ''z'' @ [newline]))
     = [(Some ''a'', ''x'' @ [newline]), (Some ''c'', ''z'' @ [newline])] \<and>
   [(Some ''a'', ''x'' @ [newline]), (Some ''c'', ''z'' @ [newline])]
     \<noteq> [match_of_region ([], ''c'', ''z'' @ [newline])]"
proof -
  have "well_formed_ending (Unterminated [] ''a'' (''x'' @ [newline]))"
    and "well_formed_ending (Unterminated [] ''b'' (''y'' @ [newline]))"
    by (simp_all add: fence_free_def fence_def sublist_code char_eval)
  moreover have "well_formed_region ([], ''c'', ''z'' @ [newline])"
    by (simp add: well_formed_region_def fence_free_def fence_def sublist_code char_eval)
  moreover have "finditer_fence (render_ending (Unterminated [] ''a'' (''x'' @ [newline])) @
                   render_ending (Unterminated [] ''b'' (''y'' @ [newline])) @
                   render_region ([], ''c'', ''z'' @ [newline]))
     = [(Some ''a'', ''x'' @ [newline]), (Some ''c'', ''z'' @ [newline])]"
    by (simp add: render_region_def match_fence_def fence_def char_eval)
  ultimately show ?thesis by simp
qed

end
